theory Spec2Isabelle
  imports Complex_Main "HOL-Library.Sublist"
begin

section \<open>Search-window selection and retrieval of \<open>vq2d/baselines/feature_retrieval.py\<close>\<close>

text \<open>
  The module has two entry points, \<open>perform_retrieval\<close> and \<open>perform_cached_retrieval\<close>.
  Both compute a search window of frame indices from \<open>query_frame\<close>, \<open>recency_factor\<close>
  and \<open>subsampling_factor\<close>, and then gather per-frame detections (from the model, or from
  a cache).

  Modelling decisions.
  \<^item> Python \<open>int\<close> is \<open>int\<close>. A Python \<open>float\<close> (the two factors, the values of
    \<open>np.linspace\<close>, the image scale, box coordinates) is a \<open>real\<close>: the arithmetic is
    exact, binary rounding of IEEE doubles is not modelled. Concrete inputs in this
    file are dyadic rationals whose products and quotients are exact in binary too.
  \<^item> An exception is a value \<open>Inl e\<close> of \<open>py_error + 'a\<close>.
  \<^item> The video reader, OpenCV, the model and \<open>extract_window_with_context\<close> are
    collaborators: they are parameters, and each may fail.
\<close>

subsection \<open>Python and NumPy primitives\<close>

datatype py_error =
    ValueError       \<comment> \<open>\<open>range\<close> with step 0, \<open>np.linspace\<close> with a negative \<open>num\<close>\<close>
  | IndexError       \<comment> \<open>list index out of range\<close>
  | KeyError         \<comment> \<open>missing key of the \<open>visual_crop\<close> dict\<close>
  | ZeroDivisionError
  | External string  \<comment> \<open>a failure raised inside a collaborator\<close>

text \<open>\<open>round(x)\<close> of Python 3 on a float: nearest integer, a tie goes to the even one.\<close>

definition py_round :: "real \<Rightarrow> int" where
  "py_round x =
     (let f = \<lfloor>x\<rfloor>; d = x - of_int f
      in if d < 1 / 2 then f
         else if 1 / 2 < d then f + 1
         else if even f then f else f + 1)"

text \<open>\<open>int(x)\<close> on a float, and \<open>ndarray.astype(int)\<close> elementwise: truncation towards zero.\<close>

definition py_int :: "real \<Rightarrow> int" where
  "py_int x = (if x < 0 then \<lceil>x\<rceil> else \<lfloor>x\<rfloor>)"

definition astype_int :: "real list \<Rightarrow> int list" where
  "astype_int ys = map py_int ys"

text \<open>\<open>range(start, stop, step)\<close>; step 0 raises \<open>ValueError\<close>.\<close>

definition py_range3 :: "int \<Rightarrow> int \<Rightarrow> int \<Rightarrow> py_error + int list" where
  "py_range3 start stop step =
     (if step = 0 then Inl ValueError
      else if 0 < step
        then Inr (map (\<lambda>k. start + int k * step)
                    [0..<nat ((stop - start + step - 1) div step)])
        else Inr (map (\<lambda>k. start + int k * step)
                    [0..<nat ((start - stop - step - 1) div (- step))]))"

text \<open>\<open>list(range(start, stop))\<close>.\<close>

definition py_range :: "int \<Rightarrow> int \<Rightarrow> int list" where
  "py_range start stop = [start..stop - 1]"

text \<open>The slice \<open>xs[s:]\<close>: a negative \<open>s\<close> counts from the end, and both ends are clipped.
  In particular \<open>xs[-0:]\<close> is \<open>xs[0:]\<close>, the whole list.\<close>

definition py_slice_from :: "'a list \<Rightarrow> int \<Rightarrow> 'a list" where
  "py_slice_from xs s =
     (let n = int (length xs);
          start = (if s < 0 then max (n + s) 0 else min s n)
      in drop (nat start) xs)"

text \<open>\<open>xs[i]\<close> on a list: a negative index counts from the end, out of range raises.\<close>

definition py_getitem :: "'a list \<Rightarrow> int \<Rightarrow> py_error + 'a" where
  "py_getitem xs i =
     (let n = int (length xs); j = (if i < 0 then i + n else i)
      in if j < 0 \<or> n \<le> j then Inl IndexError else Inr (xs ! nat j))"

text \<open>A list comprehension whose element expression may raise: the first exception wins.\<close>

fun collect :: "(py_error + 'a) list \<Rightarrow> py_error + 'a list" where
  "collect [] = Inr []"
| "collect (x # xs) =
     (case x of
        Inl e \<Rightarrow> Inl e
      | Inr v \<Rightarrow> (case collect xs of Inl e \<Rightarrow> Inl e | Inr vs \<Rightarrow> Inr (v # vs)))"

text \<open>
  \<open>np.linspace(start, stop, num)\<close> with \<open>endpoint=True\<close>, as \<open>numpy/_core/function_base.py\<close>
  computes it: \<open>y = arange(0, num) * step + start\<close> with \<open>step = (stop - start) / (num - 1)\<close>,
  and the last element is then overwritten with \<open>stop\<close>. A negative \<open>num\<close> raises
  \<open>ValueError\<close>; \<open>num = 0\<close> gives the empty array and \<open>num = 1\<close> gives \<open>[start]\<close>.
\<close>

definition np_linspace :: "real \<Rightarrow> real \<Rightarrow> int \<Rightarrow> py_error + real list" where
  "np_linspace start stop num =
     (if num < 0 then Inl ValueError
      else
        let dv = num - 1;
            delta = stop - start;
            y = map (\<lambda>k. (of_nat k :: real)) [0..<nat num];
            y = (if 0 < dv
                 then (let step = delta / of_int dv
                       in if step = 0 then map (\<lambda>v. v / of_int dv * delta) y
                          else map (\<lambda>v. v * step) y)
                 else map (\<lambda>v. v * delta) y);
            y = map (\<lambda>v. v + start) y;
            y = (if 1 < num then y[nat num - 1 := stop] else y)
        in Inr y)"

subsection \<open>The search window\<close>

text \<open>Lines 53--64 of \<open>perform_retrieval\<close>.\<close>

definition live_search_window :: "int \<Rightarrow> real \<Rightarrow> real \<Rightarrow> py_error + int list" where
  "live_search_window query_frame recency_factor subsampling_factor =
     (let search_window = py_range 0 query_frame;
          window_size = py_round (of_nat (length search_window) * recency_factor);
          search_window =
            (if 0 < length (py_slice_from search_window (- window_size))
             then py_slice_from search_window (- window_size)
             else search_window);
          window_size = int (length search_window)
      in case np_linspace 0 (of_int (window_size - 1))
                (py_int (subsampling_factor * of_int window_size)) of
           Inl e \<Rightarrow> Inl e
         | Inr ys \<Rightarrow>
             (let idxs_to_sample = astype_int ys
              in if 0 < length idxs_to_sample
                 then collect (map (py_getitem search_window) idxs_to_sample)
                 else Inr search_window))"

text \<open>Lines 148--159 of \<open>perform_cached_retrieval\<close>.\<close>

definition cached_search_window :: "int \<Rightarrow> real \<Rightarrow> real \<Rightarrow> py_error + int list" where
  "cached_search_window query_frame recency_factor subsampling_factor =
     (let search_window = py_range 0 query_frame;
          window_size = py_round (of_nat (length search_window) * recency_factor);
          search_window =
            (if 0 < length (py_slice_from search_window (- window_size))
             then py_slice_from search_window (- window_size)
             else search_window);
          window_size = int (length search_window)
      in case np_linspace 0 (of_int (window_size - 1))
                (py_int (subsampling_factor * of_int window_size)) of
           Inl e \<Rightarrow> Inl e
         | Inr ys \<Rightarrow>
             (let idxs_to_sample = astype_int ys
              in if 0 < length idxs_to_sample
                 then collect (map (py_getitem search_window) idxs_to_sample)
                 else Inr search_window))"

text \<open>
  The two steps of the window computation on their own. \<open>recency_step\<close> is lines 55--57
  (148--152): ``pick recent k% of frames''. \<open>idxs_to_sample\<close> is lines 59--62
  (154--157) for a window of \<open>window_size\<close> elements, and \<open>subsampling_step\<close> is lines
  59--64 (154--159): ``subsample only k% of frames''.
\<close>

definition recency_step :: "'a list \<Rightarrow> real \<Rightarrow> 'a list" where
  "recency_step search_window recency_factor =
     (let window_size = py_round (of_nat (length search_window) * recency_factor)
      in if 0 < length (py_slice_from search_window (- window_size))
         then py_slice_from search_window (- window_size)
         else search_window)"

definition idxs_to_sample :: "int \<Rightarrow> real \<Rightarrow> py_error + int list" where
  "idxs_to_sample window_size subsampling_factor =
     (case np_linspace 0 (of_int (window_size - 1))
             (py_int (subsampling_factor * of_int window_size)) of
        Inl e \<Rightarrow> Inl e
      | Inr ys \<Rightarrow> Inr (astype_int ys))"

definition subsampling_step :: "'a list \<Rightarrow> real \<Rightarrow> py_error + 'a list" where
  "subsampling_step search_window subsampling_factor =
     (case idxs_to_sample (int (length search_window)) subsampling_factor of
        Inl e \<Rightarrow> Inl e
      | Inr idxs \<Rightarrow>
          if 0 < length idxs then collect (map (py_getitem search_window) idxs)
          else Inr search_window)"

text \<open>
  Two quantities used to describe the window. \<open>kept q rf\<close> is the number of frames the
  recency step keeps of a base window of \<open>q\<close> frames: the rounded count, or all \<open>q\<close>
  frames when the count rounds to 0. \<open>interp_point W n k\<close> is the \<open>k\<close>-th of \<open>n\<close> points
  spaced evenly over \<open>[0, W - 1]\<close> by linear interpolation.
\<close>

definition kept :: "int \<Rightarrow> real \<Rightarrow> int" where
  "kept q rf = (if py_round (of_int q * rf) = 0 then q else py_round (of_int q * rf))"

definition interp_point :: "int \<Rightarrow> int \<Rightarrow> nat \<Rightarrow> real" where
  "interp_point W n k =
     (if n \<le> 1 then 0 else of_nat k * of_int (W - 1) / of_int (n - 1))"




subsection \<open>The collaborators and the data of the retrievers\<close>

text \<open>Sequencing of statements that may raise: the first exception ends the call.\<close>

definition py_bind :: "py_error + 'a \<Rightarrow> ('a \<Rightarrow> py_error + 'b) \<Rightarrow> py_error + 'b" where
  "py_bind r f = (case r of Inl e \<Rightarrow> Inl e | Inr v \<Rightarrow> f v)"

text \<open>\<open>visual_crop\<close> is a dict with string keys; a missing key raises \<open>KeyError\<close>.\<close>

type_synonym visual_crop = "string \<rightharpoonup> int"

definition vc_get :: "visual_crop \<Rightarrow> string \<Rightarrow> py_error + int" where
  "vc_get visual_crop key = (case visual_crop key of None \<Rightarrow> Inl KeyError | Some v \<Rightarrow> Inr v)"

text \<open>
  Modelled from the spec: \<open>BBox\<close> is imported from \<open>vq2d/structures\<close>, which is not among the
  sources; the spec's data model gives it as the tuple
  \<open>(frame_number, x1, y1, x2, y2)\<close>, built by \<open>BBox(fno, x1, y1, x2, y2)\<close>.
\<close>

datatype BBox = BBox (fno: int) (x1: int) (y1: int) (x2: int) (y2: int)

text \<open>
  What the model returns for one frame: \<open>instances.pred_boxes.tensor\<close>, an N x 4 float
  tensor, and \<open>instances.scores\<close>.
\<close>

record instances =
  pred_boxes :: "(real \<times> real \<times> real \<times> real) list"
  scores :: "real list"

text \<open>
  \<open>net\<close>: the two configuration fields that are read, and the call
  \<open>net(bimages, breferences)\<close>, which returns one output per image.
\<close>

record ('img, 'ref) predictor =
  REFERENCE_CONTEXT_PAD :: real
  REFERENCE_SIZE :: int
  infer :: "'img list \<Rightarrow> 'ref list \<Rightarrow> py_error + instances list"

text \<open>
  The image operations. \<open>img_shape\<close> is \<open>image.shape[:2]\<close>, that is (height, width);
  \<open>cv2_resize_to img (w, h)\<close> is \<open>cv2.resize(img, (w, h))\<close>; \<open>cv2_resize_by img s\<close> is
  \<open>cv2.resize(img, None, fx=s, fy=s)\<close>. \<open>extract_window_with_context\<close> (from
  \<open>vq2d/baselines/utils\<close>, not among the sources) stands for lines 36--51: the conversion
  to a float tensor, the padded crop around the box and the conversion back to a byte
  image.
\<close>

record ('img, 'ref) image_ops =
  img_shape :: "'img \<Rightarrow> int \<times> int"
  cv2_resize_to :: "'img \<Rightarrow> int \<times> int \<Rightarrow> py_error + 'img"
  cv2_resize_by :: "'img \<Rightarrow> real \<Rightarrow> py_error + 'img"
  extract_window_with_context ::
    "'img \<Rightarrow> int \<times> int \<times> int \<times> int \<Rightarrow> real \<Rightarrow> int \<Rightarrow> py_error + 'ref"

subsection \<open>The reference image (lines 28--51 and 123--146)\<close>

definition prepare_reference ::
  "('img, 'ref) image_ops \<Rightarrow> (int \<Rightarrow> py_error + 'img) \<Rightarrow> visual_crop \<Rightarrow> real \<Rightarrow> int
     \<Rightarrow> py_error + ('ref \<times> int \<times> int)" where
  "prepare_reference ops video_reader visual_crop context_pad ref_size =
     py_bind (vc_get visual_crop ''frame_number'') (\<lambda>vc_fno.
     py_bind (vc_get visual_crop ''original_width'') (\<lambda>owidth.
     py_bind (vc_get visual_crop ''original_height'') (\<lambda>oheight.
     py_bind (video_reader vc_fno) (\<lambda>reference.
     py_bind (if fst (img_shape ops reference) \<noteq> oheight \<or>
                 snd (img_shape ops reference) \<noteq> owidth
              then cv2_resize_to ops reference (owidth, oheight)
              else Inr reference) (\<lambda>reference.
     py_bind (vc_get visual_crop ''x'') (\<lambda>x.
     py_bind (vc_get visual_crop ''y'') (\<lambda>y.
     py_bind (vc_get visual_crop ''width'') (\<lambda>width.
     py_bind (vc_get visual_crop ''height'') (\<lambda>height.
     py_bind (extract_window_with_context ops reference
                (x, y, x + width, y + height) context_pad ref_size) (\<lambda>reference.
     Inr (reference, owidth, oheight)))))))))))"

subsection \<open>The live retriever (lines 66--105)\<close>

text \<open>
  Lines 77--89 for one frame index \<open>s = search_window[j]\<close>: the original frame, the
  downscaled frame and the scale. \<open>float(downscale_height) / image.shape[0]\<close> raises
  \<open>ZeroDivisionError\<close> on a frame of height 0.
\<close>

definition load_frame ::
  "('img, 'ref) image_ops \<Rightarrow> (int \<Rightarrow> py_error + 'img) \<Rightarrow> int \<Rightarrow> int \<Rightarrow> int \<Rightarrow> int
     \<Rightarrow> py_error + ('img \<times> 'img \<times> real)" where
  "load_frame ops video_reader oheight owidth downscale_height s =
     py_bind (video_reader s) (\<lambda>orig_image.
     py_bind (if img_shape ops orig_image \<noteq> (oheight, owidth)
              then cv2_resize_to ops orig_image (owidth, oheight)
              else Inr orig_image) (\<lambda>image.
     if fst (img_shape ops image) = 0 then Inl ZeroDivisionError
     else (let image_scale = of_int downscale_height / of_int (fst (img_shape ops image))
           in py_bind (cv2_resize_by ops image image_scale) (\<lambda>image.
              Inr (orig_image, image, image_scale)))))"

text \<open>
  Lines 97--100 for one box: division by the scale, \<open>astype(int)\<close>, and the frame index as
  first field. (A scale of 0 needs \<open>downscale_height = 0\<close>; the theorems below take the
  scale positive.)
\<close>

definition rescale_bbox :: "int \<Rightarrow> real \<Rightarrow> real \<times> real \<times> real \<times> real \<Rightarrow> BBox" where
  "rescale_bbox s image_scale bbox =
     (case bbox of (a, b, c, d) \<Rightarrow>
        BBox s (py_int (a / image_scale)) (py_int (b / image_scale))
               (py_int (c / image_scale)) (py_int (d / image_scale)))"

text \<open>
  One iteration of the loop over batches (lines 72--104), for the batch \<open>range(i, i_end)\<close>:
  the per-frame lists of boxes and scores of the batch, and the frames to append to
  \<open>ret_imgs\<close>.
\<close>

definition process_batch ::
  "('img, 'ref) image_ops \<Rightarrow> (int \<Rightarrow> py_error + 'img) \<Rightarrow> ('img, 'ref) predictor \<Rightarrow> 'ref
     \<Rightarrow> int \<Rightarrow> int \<Rightarrow> int \<Rightarrow> bool \<Rightarrow> int list \<Rightarrow> int \<Rightarrow> int
     \<Rightarrow> py_error + (BBox list list \<times> real list list \<times> 'img list)" where
  "process_batch ops video_reader net reference oheight owidth downscale_height visualize
       search_window i i_end =
     py_bind (collect (map (\<lambda>j. py_bind (py_getitem search_window j)
                                (load_frame ops video_reader oheight owidth downscale_height))
                         (py_range i i_end))) (\<lambda>frames.
     (let bimages = map (\<lambda>(orig_image, image, image_scale). image) frames;
          breferences = map (\<lambda>_. reference) frames;
          image_scales = map (\<lambda>(orig_image, image, image_scale). image_scale) frames;
          imgs = (if visualize then map (\<lambda>(orig_image, image, image_scale). orig_image) frames
                  else [])
      in py_bind (infer net bimages breferences) (\<lambda>all_outputs.
         py_bind (collect (map (\<lambda>j.
                     py_bind (py_getitem all_outputs (j - i)) (\<lambda>instances.
                     py_bind (py_getitem image_scales (j - i)) (\<lambda>image_scale.
                     py_bind (py_getitem search_window j) (\<lambda>s.
                     Inr (map (rescale_bbox s image_scale) (pred_boxes instances),
                          scores instances)))))
                   (py_range i i_end))) (\<lambda>outs.
         Inr (map fst outs, map snd outs, imgs)))))"

text \<open>The loop over the batch starts, with \<open>ret_bboxes\<close>, \<open>ret_scores\<close>, \<open>ret_imgs\<close> as state.\<close>

fun batch_loop ::
  "(int \<Rightarrow> py_error + ('b list \<times> 'c list \<times> 'd list)) \<Rightarrow> int list
     \<Rightarrow> 'b list \<times> 'c list \<times> 'd list \<Rightarrow> py_error + ('b list \<times> 'c list \<times> 'd list)" where
  "batch_loop body [] acc = Inr acc"
| "batch_loop body (i # starts) (ret_bboxes, ret_scores, ret_imgs) =
     py_bind (body i) (\<lambda>(bbs, scs, imgs).
       batch_loop body starts (ret_bboxes @ bbs, ret_scores @ scs, ret_imgs @ imgs))"

definition perform_retrieval ::
  "('img, 'ref) image_ops \<Rightarrow> (int \<Rightarrow> py_error + 'img) \<Rightarrow> visual_crop \<Rightarrow> int
     \<Rightarrow> ('img, 'ref) predictor \<Rightarrow> int \<Rightarrow> int \<Rightarrow> real \<Rightarrow> real \<Rightarrow> bool
     \<Rightarrow> py_error + (BBox list list \<times> real list list \<times> 'img list \<times> 'ref)" where
  "perform_retrieval ops video_reader visual_crop query_frame net batch_size downscale_height
       recency_factor subsampling_factor visualize =
     py_bind (prepare_reference ops video_reader visual_crop
                (REFERENCE_CONTEXT_PAD net) (REFERENCE_SIZE net)) (\<lambda>(reference, owidth, oheight).
     py_bind (live_search_window query_frame recency_factor subsampling_factor) (\<lambda>search_window.
     py_bind (py_range3 0 (int (length search_window)) batch_size) (\<lambda>starts.
     py_bind (batch_loop
                (\<lambda>i. process_batch ops video_reader net reference oheight owidth
                        downscale_height visualize search_window i
                        (min (i + batch_size) (int (length search_window))))
                starts ([], [], [])) (\<lambda>(ret_bboxes, ret_scores, ret_imgs).
     Inr (ret_bboxes, ret_scores, ret_imgs, reference)))))"

subsection \<open>The cached retriever (lines 161--165)\<close>

definition perform_cached_retrieval ::
  "('img, 'ref) image_ops \<Rightarrow> (int \<Rightarrow> py_error + 'img) \<Rightarrow> visual_crop \<Rightarrow> int
     \<Rightarrow> ('img, 'ref) predictor \<Rightarrow> 'b list \<Rightarrow> 'c list \<Rightarrow> real \<Rightarrow> real \<Rightarrow> bool
     \<Rightarrow> py_error + ('b list \<times> 'c list \<times> 'img list \<times> 'ref)" where
  "perform_cached_retrieval ops video_reader visual_crop query_frame net cached_bboxes
       cached_scores recency_factor subsampling_factor visualize =
     py_bind (prepare_reference ops video_reader visual_crop
                (REFERENCE_CONTEXT_PAD net) (REFERENCE_SIZE net)) (\<lambda>(reference, owidth, oheight).
     py_bind (cached_search_window query_frame recency_factor subsampling_factor) (\<lambda>search_window.
     py_bind (collect (map (py_getitem cached_bboxes) search_window)) (\<lambda>ret_bboxes.
     py_bind (collect (map (py_getitem cached_scores) search_window)) (\<lambda>ret_scores.
     py_bind (if visualize then collect (map video_reader search_window) else Inr [])
       (\<lambda>ret_imgs.
     Inr (ret_bboxes, ret_scores, ret_imgs, reference))))))"

text \<open>
  A concrete set of collaborators, used to evaluate the retrievers: frames are numbered
  by their index and are all 8 pixels high and 6 wide, resizing keeps the frame number,
  the reference is the cropped box, and the model reports one box per frame, scaled from
  the box (10, 20, 30, 40) of the original frame.
\<close>

definition demo_ops :: "(int, int \<times> int \<times> int \<times> int) image_ops" where
  "demo_ops = \<lparr> img_shape = (\<lambda>img. (8, 6)),
                cv2_resize_to = (\<lambda>img dsize. Inr img),
                cv2_resize_by = (\<lambda>img s. Inr img),
                extract_window_with_context = (\<lambda>img bbox pad sz. Inr bbox) \<rparr>"

definition demo_crop :: visual_crop where
  "demo_crop = [''frame_number'' \<mapsto> 0, ''original_width'' \<mapsto> 6, ''original_height'' \<mapsto> 8,
                ''x'' \<mapsto> 1, ''y'' \<mapsto> 2, ''width'' \<mapsto> 3, ''height'' \<mapsto> 4]"

definition demo_net :: "(int, int \<times> int \<times> int \<times> int) predictor" where
  "demo_net = \<lparr> REFERENCE_CONTEXT_PAD = 1 / 2, REFERENCE_SIZE = 256,
                infer = (\<lambda>images refs.
                  Inr (map (\<lambda>img. \<lparr> pred_boxes = [(5, 10, 15, 20)], scores = [1 / 2] \<rparr>) images)) \<rparr>"

definition failing_net :: "(int, int \<times> int \<times> int \<times> int) predictor" where
  "failing_net = \<lparr> REFERENCE_CONTEXT_PAD = 1 / 2, REFERENCE_SIZE = 256,
                   infer = (\<lambda>images refs. Inl (External ''model failure'')) \<rparr>"

subsection \<open>Auxiliary facts\<close>

lemma live_search_window_steps:
  "live_search_window q rf sf = subsampling_step (recency_step (py_range 0 q) rf) sf"
  by (simp add: live_search_window_def subsampling_step_def recency_step_def
      idxs_to_sample_def Let_def split: sum.splits)


lemma length_py_range: "length (py_range a b) = nat (b - a)"
  by (simp add: py_range_def)

lemma nth_py_range: "k < nat (b - a) \<Longrightarrow> py_range a b ! k = a + int k"
  by (simp add: py_range_def)

lemma drop_py_range: "0 \<le> d \<Longrightarrow> drop (nat d) (py_range a b) = py_range (a + d) b"
  by (rule nth_equalityI) (auto simp: length_py_range nth_py_range)

lemma py_round_lower: "0 \<le> x \<Longrightarrow> 0 \<le> py_round x"
  by (auto simp: py_round_def Let_def)

lemma py_round_upper: "x \<le> of_int q \<Longrightarrow> py_round x \<le> q"
proof (cases "x = of_int q")
  case True
  then show ?thesis by (simp add: py_round_def)
next
  case False
  assume "x \<le> of_int q"
  with False have "x < of_int q" by simp
  then have "\<lfloor>x\<rfloor> < q" by (simp add: floor_less_iff)
  then show ?thesis by (auto simp: py_round_def Let_def)
qed

lemma recency_py_range:
  assumes "0 \<le> q" "0 \<le> rf" "rf \<le> 1"
  shows "recency_step (py_range 0 q) rf = py_range (q - kept q rf) q"
    and "0 \<le> kept q rf" and "kept q rf \<le> q" and "0 < q \<Longrightarrow> 0 < kept q rf"
proof -
  let ?k = "py_round (of_int q * rf)"
  have x0: "0 \<le> of_int q * rf" using assms by simp
  have x1: "of_int q * rf \<le> of_int q" using assms by (simp add: mult_left_le)
  have k0: "0 \<le> ?k" using x0 by (rule py_round_lower)
  have k1: "?k \<le> q" using x1 by (rule py_round_upper)
  show "0 \<le> kept q rf" "kept q rf \<le> q" using k0 k1 assms by (auto simp: kept_def)
  show "0 < q \<Longrightarrow> 0 < kept q rf" using k0 by (auto simp: kept_def)
  have len: "of_nat (length (py_range 0 q)) = (of_int q :: real)"
    using assms by (simp add: length_py_range)
  show "recency_step (py_range 0 q) rf = py_range (q - kept q rf) q"
  proof (cases "?k = 0")
    case True
    then show ?thesis
      unfolding recency_step_def len by (simp add: py_slice_from_def kept_def Let_def)
  next
    case False
    with k0 have kp: "0 < ?k" by simp
    have "py_slice_from (py_range 0 q) (- ?k) = drop (nat (q - ?k)) (py_range 0 q)"
      using kp k1 assms by (simp add: py_slice_from_def length_py_range Let_def max_def)
    also have "\<dots> = py_range (q - ?k) q"
      using k1 drop_py_range [of "q - ?k" 0 q] by simp
    finally have sl: "py_slice_from (py_range 0 q) (- ?k) = py_range (q - ?k) q" .
    have "0 < length (py_range (q - ?k) q)" using kp by (simp add: length_py_range)
    then show ?thesis
      unfolding recency_step_def len using False by (simp add: sl kept_def Let_def)
  qed
qed

lemma np_linspace_points:
  assumes "0 \<le> n"
  shows "np_linspace 0 (of_int (W - 1)) n = Inr (map (interp_point W n) [0..<nat n])"
proof (cases "n \<le> 1")
  case True
  with assms have "n = 0 \<or> n = 1" by auto
  then show ?thesis
    by (auto simp: np_linspace_def interp_point_def Let_def)
next
  case False
  then have n2: "2 \<le> n" by simp
  have last: "interp_point W n (nat n - 1) = of_int (W - 1)"
    using n2 by (simp add: interp_point_def of_nat_diff)
  have pt: "real k * of_int (W - 1) / of_int (n - 1) = interp_point W n k" for k
    using n2 by (simp add: interp_point_def)
  have z: "of_int (W - 1) / of_int (n - 1) = (0::real) \<Longrightarrow>
           real k / of_int (n - 1) * of_int (W - 1) = interp_point W n k" for k
    using n2 by (simp add: interp_point_def)
  have w1: "interp_point 1 n = (\<lambda>k. 0)"
    by (simp add: interp_point_def fun_eq_iff)
  have "np_linspace 0 (of_int (W - 1)) n
        = Inr ((map (interp_point W n) [0..<nat n])[nat n - 1 := of_int (W - 1)])"
    unfolding np_linspace_def Let_def using n2 by (simp add: pt z w1 o_def del: of_int_diff)
  also have "(map (interp_point W n) [0..<nat n])[nat n - 1 := of_int (W - 1)]
        = map (interp_point W n) [0..<nat n]"
    using n2 by (intro nth_equalityI) (auto simp: nth_list_update last [symmetric] simp del: of_int_diff)
  finally show ?thesis .
qed

lemma interp_point_bounds:
  assumes "1 \<le> W" "k < nat n"
  shows "0 \<le> interp_point W n k" and "interp_point W n k \<le> of_int (W - 1)"
proof -
  show "0 \<le> interp_point W n k" using assms by (simp add: interp_point_def)
  show "interp_point W n k \<le> of_int (W - 1)"
  proof (cases "n \<le> 1")
    case True
    then show ?thesis using assms by (simp add: interp_point_def)
  next
    case False
    then have "real k \<le> of_int (n - 1)" using assms by linarith
    moreover have "(0::real) \<le> of_int (W - 1)" using assms by simp
    ultimately have "real k * of_int (W - 1) \<le> of_int (n - 1) * of_int (W - 1)"
      by (rule mult_right_mono)
    then show ?thesis using False by (simp add: interp_point_def pos_divide_le_eq mult.commute)
  qed
qed

lemma py_int_interp_point:
  assumes "1 \<le> W" "k < nat n"
  shows "py_int (interp_point W n k) = \<lfloor>interp_point W n k\<rfloor>"
    and "0 \<le> py_int (interp_point W n k)" and "py_int (interp_point W n k) \<le> W - 1"
proof -
  note b = interp_point_bounds [OF assms]
  show e: "py_int (interp_point W n k) = \<lfloor>interp_point W n k\<rfloor>"
    using b(1) by (simp add: py_int_def)
  show "0 \<le> py_int (interp_point W n k)" using b(1) by (simp add: e)
  show "py_int (interp_point W n k) \<le> W - 1" using b(2) by (simp add: e floor_less_iff)
qed

lemma interp_point_step:
  assumes "2 \<le> n" "n \<le> W"
  shows "interp_point W n k + 1 \<le> interp_point W n (Suc k)"
proof -
  have "(1::real) \<le> of_int (W - 1) / of_int (n - 1)"
    using assms by (simp add: pos_le_divide_eq)
  moreover have "interp_point W n (Suc k) = interp_point W n k + of_int (W - 1) / of_int (n - 1)"
    using assms by (simp add: interp_point_def add_divide_distrib distrib_right)
  ultimately show ?thesis by simp
qed

lemma floor_interp_point_Suc:
  assumes "2 \<le> n" "n \<le> W"
  shows "\<lfloor>interp_point W n k\<rfloor> < \<lfloor>interp_point W n (Suc k)\<rfloor>"
proof -
  have "\<lfloor>interp_point W n k\<rfloor> + 1 = \<lfloor>interp_point W n k + 1\<rfloor>" by simp
  also have "\<dots> \<le> \<lfloor>interp_point W n (Suc k)\<rfloor>"
    by (rule floor_mono) (rule interp_point_step [OF assms])
  finally show ?thesis by simp
qed

lemma floor_interp_point_strict:
  assumes "2 \<le> n" "n \<le> W" "i < j"
  shows "\<lfloor>interp_point W n i\<rfloor> < \<lfloor>interp_point W n j\<rfloor>"
  using \<open>i < j\<close>
proof (induction j)
  case 0
  then show ?case by simp
next
  case (Suc j)
  have s: "\<lfloor>interp_point W n j\<rfloor> < \<lfloor>interp_point W n (Suc j)\<rfloor>"
    by (rule floor_interp_point_Suc [OF assms(1,2)])
  show ?case
  proof (cases "i = j")
    case True
    with s show ?thesis by simp
  next
    case False
    with Suc.prems have "i < j" by simp
    with Suc.IH s show ?thesis by simp
  qed
qed

lemma idxs_to_sample_points:
  assumes "0 \<le> py_int (sf * of_int W)"
  shows "idxs_to_sample W sf =
         Inr (map (\<lambda>k. py_int (interp_point W (py_int (sf * of_int W)) k))
                [0..<nat (py_int (sf * of_int W))])"
  unfolding idxs_to_sample_def np_linspace_points [OF assms]
  by (simp add: astype_int_def)

lemma collect_map_Inr: "collect (map (\<lambda>x. Inr (f x)) xs) = Inr (map f xs)"
  by (induction xs) simp_all

lemma py_getitem_in_range:
  "0 \<le> i \<Longrightarrow> i < int (length xs) \<Longrightarrow> py_getitem xs i = Inr (xs ! nat i)"
  by (simp add: py_getitem_def Let_def)

lemma collect_py_getitem:
  assumes "\<And>i. i \<in> set js \<Longrightarrow> 0 \<le> i \<and> i < int (length xs)"
  shows "collect (map (py_getitem xs) js) = Inr (map (\<lambda>i. xs ! nat i) js)"
  using assms by (induction js) (simp_all add: py_getitem_in_range)

lemma subsampling_step_points:
  assumes "1 \<le> int (length xs)" "0 \<le> py_int (sf * of_int (int (length xs)))"
  shows "subsampling_step xs sf =
         Inr (if py_int (sf * of_int (int (length xs))) = 0 then xs
              else map (\<lambda>k. xs ! nat (py_int (interp_point (int (length xs))
                                  (py_int (sf * of_int (int (length xs)))) k)))
                     [0..<nat (py_int (sf * of_int (int (length xs))))])"
proof -
  let ?W = "int (length xs)"
  let ?c = "py_int (sf * of_int ?W)"
  let ?js = "map (\<lambda>k. py_int (interp_point ?W ?c k)) [0..<nat ?c]"
  have idx: "idxs_to_sample ?W sf = Inr ?js"
    by (rule idxs_to_sample_points [OF assms(2)])
  have rng: "0 \<le> i \<and> i < ?W" if "i \<in> set ?js" for i
  proof -
    from that obtain k where k: "k < nat ?c" and i: "i = py_int (interp_point ?W ?c k)"
      by auto
    from py_int_interp_point(2,3) [OF assms(1) k] show ?thesis by (simp add: i)
  qed
  have col: "collect (map (py_getitem xs) ?js) = Inr (map (\<lambda>i. xs ! nat i) ?js)"
    using rng by (rule collect_py_getitem)
  show ?thesis
  proof (cases "?c = 0")
    case True
    then show ?thesis unfolding subsampling_step_def idx by simp
  next
    case False
    with assms(2) have "0 < nat ?c" by simp
    then show ?thesis unfolding subsampling_step_def idx using False col
      by (simp add: o_def)
  qed
qed

lemma py_int_nonneg: "0 \<le> x \<Longrightarrow> py_int x = \<lfloor>x\<rfloor>"
  by (simp add: py_int_def)

lemma window_shape:
  assumes "0 < q" "0 \<le> rf" "rf \<le> 1" "0 \<le> py_int (sf * of_int (kept q rf))"
  shows "subsampling_step (recency_step (py_range 0 q) rf) sf =
         Inr (if py_int (sf * of_int (kept q rf)) = 0 then py_range (q - kept q rf) q
              else map (\<lambda>k. q - kept q rf
                            + py_int (interp_point (kept q rf) (py_int (sf * of_int (kept q rf))) k))
                     [0..<nat (py_int (sf * of_int (kept q rf)))])"
proof -
  let ?W = "kept q rf"
  let ?c = "py_int (sf * of_int ?W)"
  let ?xs = "py_range (q - ?W) q"
  have q0: "0 \<le> q" using assms by simp
  note r = recency_py_range [OF q0 assms(2,3)]
  have W: "0 < ?W" "?W \<le> q" using r(3) r(4) assms(1) by auto
  have len: "int (length ?xs) = ?W" using W by (simp add: length_py_range)
  have l1: "1 \<le> int (length ?xs)" using W len by simp
  have c0: "0 \<le> py_int (sf * of_int (int (length ?xs)))" using assms(4) by (simp only: len)
  have nth: "?xs ! nat (py_int (interp_point ?W ?c k)) = q - ?W + py_int (interp_point ?W ?c k)"
    if "k < nat ?c" for k
  proof -
    have "1 \<le> ?W" using W by simp
    from py_int_interp_point(2,3) [OF this that]
    show ?thesis using W by (simp add: nth_py_range)
  qed
  have "subsampling_step ?xs sf =
         Inr (if ?c = 0 then ?xs
              else map (\<lambda>k. ?xs ! nat (py_int (interp_point ?W ?c k))) [0..<nat ?c])"
    using subsampling_step_points [OF l1 c0] by (simp only: len)
  also have "map (\<lambda>k. ?xs ! nat (py_int (interp_point ?W ?c k))) [0..<nat ?c]
           = map (\<lambda>k. q - ?W + py_int (interp_point ?W ?c k)) [0..<nat ?c]"
    by (rule map_cong [OF refl]) (simp add: nth)
  finally show ?thesis by (simp only: r(1))
qed

lemma sorted_wrt_py_range: "sorted_wrt (<) (py_range a b)"
  by (simp add: py_range_def sorted_wrt_iff_nth_less)

lemma set_py_range: "set (py_range a b) = {a..<b}"
  by (auto simp: py_range_def)

lemma py_range_conv_map: "py_range a b = map (\<lambda>k. a + int k) [0..<nat (b - a)]"
  by (rule nth_equalityI) (auto simp: length_py_range nth_py_range)

lemma py_round_of_int: "py_round (of_int k) = k"
  by (simp add: py_round_def)

lemma kept_one: "0 < q \<Longrightarrow> kept q 1 = q"
  by (simp add: kept_def py_round_of_int)

lemma interp_point_full:
  assumes "k < nat W"
  shows "interp_point W W k = of_nat k"
proof (cases "W \<le> 1")
  case True
  with assms have "k = 0" by simp
  then show ?thesis using True by (simp add: interp_point_def)
next
  case False
  then show ?thesis by (simp add: interp_point_def)
qed

lemma live_search_window_zero: "live_search_window 0 rf sf = Inr []"
  by (simp add: live_search_window_def py_range_def py_round_def py_slice_from_def
      np_linspace_def py_int_def astype_int_def Let_def)

lemma strict_sorted_subseq_py_range:
  assumes "sorted_wrt (<) w" "set w \<subseteq> {a..<b}"
  shows "subseq w (py_range a b)"
proof -
  let ?f = "filter (\<lambda>x. x \<in> set w) (py_range a b)"
  have sb: "sorted (py_range a b)" "distinct (py_range a b)"
    using sorted_wrt_py_range [of a b] by (simp_all add: strict_sorted_iff)
  have "sorted ?f" "distinct ?f" using sb by (simp_all add: sorted_wrt_filter)
  moreover have "sorted w" "distinct w" using assms(1) by (simp_all add: strict_sorted_iff)
  moreover have "set ?f = set w" using assms(2) by (auto simp: set_py_range)
  ultimately have "?f = w" by (rule sorted_distinct_set_unique)
  moreover have "subseq ?f (py_range a b)" by (rule subseq_filter_left)
  ultimately show ?thesis by simp
qed


subsection \<open>Auxiliary facts about the retrievers\<close>

lemma py_bind_Inr_iff: "py_bind r f = Inr y \<longleftrightarrow> (\<exists>v. r = Inr v \<and> f v = Inr y)"
  by (cases r) (simp_all add: py_bind_def)

lemma collect_Inr_iff: "collect xs = Inr ys \<longleftrightarrow> xs = map Inr ys"
proof (induction xs arbitrary: ys)
  case Nil
  show ?case by auto
next
  case (Cons x xs)
  show ?case
  proof (cases x)
    case (Inl e)
    then show ?thesis by auto
  next
    case (Inr v)
    show ?thesis
    proof (cases "collect xs")
      case (Inl e)
      with Cons.IH have "\<And>zs. xs \<noteq> map Inr zs" by auto
      then show ?thesis using Inl \<open>x = Inr v\<close> by (cases ys) auto
    next
      case r: (Inr vs)
      with Cons.IH [of vs] have "xs = map Inr vs" by simp
      then show ?thesis using r \<open>x = Inr v\<close> by (cases ys) (auto simp: inj_map_eq_map)
    qed
  qed
qed

lemma collect_map_Inr_iff:
  "collect (map f xs) = Inr ys \<longleftrightarrow> list_all2 (\<lambda>x y. f x = Inr y) xs ys"
  unfolding collect_Inr_iff
  by (auto simp: list_all2_conv_all_nth list_eq_iff_nth_eq)

lemma perform_cached_retrieval_Inr:
  assumes "perform_cached_retrieval ops video_reader visual_crop q net cached_bboxes
             cached_scores rf sf visualize = Inr (ret_bboxes, ret_scores, ret_imgs, reference)"
  shows "\<exists>sw. cached_search_window q rf sf = Inr sw \<and>
            list_all2 (\<lambda>s b. py_getitem cached_bboxes s = Inr b) sw ret_bboxes \<and>
            list_all2 (\<lambda>s c. py_getitem cached_scores s = Inr c) sw ret_scores \<and>
            (if visualize then list_all2 (\<lambda>s img. video_reader s = Inr img) sw ret_imgs
             else ret_imgs = [])"
  using assms
  by (auto simp: perform_cached_retrieval_def py_bind_Inr_iff collect_map_Inr_iff
      split: if_splits)

lemma perform_cached_retrieval_cfg:
  assumes "REFERENCE_CONTEXT_PAD net = REFERENCE_CONTEXT_PAD net'"
    and "REFERENCE_SIZE net = REFERENCE_SIZE net'"
  shows "perform_cached_retrieval ops video_reader visual_crop q net cached_bboxes
             cached_scores rf sf visualize =
         perform_cached_retrieval ops video_reader visual_crop q net' cached_bboxes
             cached_scores rf sf visualize"
  by (simp add: perform_cached_retrieval_def assms)

lemma py_getitem_Inr_nat:
  "py_getitem xs (int k) = Inr v \<longleftrightarrow> k < length xs \<and> v = xs ! k"
  by (auto simp: py_getitem_def Let_def)

lemma py_range_segment:
  assumes "0 \<le> i" "i_end \<le> int (length sw)" "k < nat (i_end - i)"
  shows "py_range i i_end ! k = i + int k"
    and "py_getitem sw (i + int k) = Inr (take (nat (i_end - i)) (drop (nat i) sw) ! k)"
proof -
  show "py_range i i_end ! k = i + int k" using assms by (simp add: nth_py_range)
  have "i + int k = int (nat i + k)" using assms by simp
  moreover have "nat i + k < length sw" using assms by linarith
  ultimately show "py_getitem sw (i + int k) = Inr (take (nat (i_end - i)) (drop (nat i) sw) ! k)"
    using assms by (simp add: py_getitem_Inr_nat del: of_nat_add)
qed

lemma py_bindE:
  assumes "py_bind r f = Inr y"
  obtains v where "r = Inr v" and "f v = Inr y"
  using assms by (auto simp: py_bind_Inr_iff)

lemma process_batch_parts:
  assumes "process_batch ops vr net reference oh ow dh vis sw i i_end = Inr (bbs, scs, imgs)"
  obtains frames and all_outputs :: "instances list" and outs where
    "collect (map (\<lambda>j. py_bind (py_getitem sw j) (load_frame ops vr oh ow dh))
                   (py_range i i_end)) = Inr frames"
    and "collect (map (\<lambda>j.
              py_bind (py_getitem all_outputs (j - i)) (\<lambda>instances.
              py_bind (py_getitem (map (\<lambda>(orig_image, image, image_scale). image_scale) frames)
                         (j - i)) (\<lambda>image_scale.
              py_bind (py_getitem sw j) (\<lambda>s.
              Inr (map (rescale_bbox s image_scale) (pred_boxes instances),
                   scores instances)))))
          (py_range i i_end)) = Inr outs"
    and "bbs = map fst outs" and "scs = map snd outs"
    and "imgs = (if vis then map (\<lambda>(orig_image, image, image_scale). orig_image) frames
                 else [])"
  using assms unfolding process_batch_def Let_def
  apply (elim py_bindE)
  apply (rule that)
      apply assumption
     apply assumption
    apply simp_all
  done

lemma process_batch_Inr:
  assumes pb: "process_batch ops vr net reference oh ow dh vis sw i i_end = Inr (bbs, scs, imgs)"
    and i0: "0 \<le> i" and ie: "i_end \<le> int (length sw)"
  shows "list_all2 (\<lambda>s bb. \<exists>orig image scale (inst :: instances).
            load_frame ops vr oh ow dh s = Inr (orig, image, scale) \<and>
            bb = map (rescale_bbox s scale) (pred_boxes inst))
           (take (nat (i_end - i)) (drop (nat i) sw)) bbs"
    and "length scs = length (take (nat (i_end - i)) (drop (nat i) sw))"
    and "if vis
         then list_all2 (\<lambda>s im. \<exists>image scale. load_frame ops vr oh ow dh s = Inr (im, image, scale))
                (take (nat (i_end - i)) (drop (nat i) sw)) imgs
         else imgs = []"
proof -
  let ?seg = "take (nat (i_end - i)) (drop (nat i) sw)"
  let ?n = "nat (i_end - i)"
  let ?sc = "\<lambda>frames. map (\<lambda>(orig_image, image, image_scale). image_scale) frames"
  from pb obtain frames and all_outputs :: "instances list" and outs where
    F0: "collect (map (\<lambda>j. py_bind (py_getitem sw j) (load_frame ops vr oh ow dh))
                   (py_range i i_end)) = Inr frames"
    and O0: "collect (map (\<lambda>j.
              py_bind (py_getitem all_outputs (j - i)) (\<lambda>instances.
              py_bind (py_getitem (?sc frames) (j - i)) (\<lambda>image_scale.
              py_bind (py_getitem sw j) (\<lambda>s.
              Inr (map (rescale_bbox s image_scale) (pred_boxes instances),
                   scores instances)))))
          (py_range i i_end)) = Inr outs"
    and bbs: "bbs = map fst outs" and scs: "scs = map snd outs"
    and imgs: "imgs = (if vis then map (\<lambda>(orig_image, image, image_scale). orig_image) frames
                       else [])"
    by (rule process_batch_parts)
  note F = F0 [unfolded collect_map_Inr_iff]
  note O = O0 [unfolded collect_map_Inr_iff]
  have lseg: "length ?seg = ?n" using i0 ie by simp
  have lF: "length frames = ?n" using F by (simp add: list_all2_lengthD [symmetric] length_py_range)
  have lO: "length outs = ?n" using O by (simp add: list_all2_lengthD [symmetric] length_py_range)
  have fr: "load_frame ops vr oh ow dh (?seg ! k) = Inr (frames ! k)" if "k < ?n" for k
  proof -
    have "k < length (py_range i i_end)" using that by (simp add: length_py_range)
    from list_all2_nthD [OF F this]
    show ?thesis
      using py_range_segment [OF i0 ie that] by (simp add: py_bind_def)
  qed
  have ou: "\<exists>inst :: instances. outs ! k = (map (rescale_bbox (?seg ! k) (snd (snd (frames ! k))))
                                  (pred_boxes inst), scores inst)" if kn: "k < ?n" for k
  proof -
    have "k < length (py_range i i_end)" using kn by (simp add: length_py_range)
    from list_all2_nthD [OF O this] obtain inst :: instances and scale s where
      a: "py_getitem (?sc frames) (int k) = Inr scale"
      and b: "py_getitem sw (i + int k) = Inr s"
      and c: "(map (rescale_bbox s scale) (pred_boxes inst), scores inst) = outs ! k"
      using py_range_segment(1) [OF i0 ie kn] by (auto simp: py_bind_Inr_iff)
    from a have "scale = snd (snd (frames ! k))"
      using kn lF by (simp add: py_getitem_Inr_nat split_beta)
    moreover from b have "s = ?seg ! k" using py_range_segment(2) [OF i0 ie kn] by simp
    ultimately show ?thesis using c [symmetric] by blast
  qed
  show "length scs = length ?seg" by (simp only: scs lseg length_map lO)
  show "list_all2 (\<lambda>s bb. \<exists>orig image scale (inst :: instances).
            load_frame ops vr oh ow dh s = Inr (orig, image, scale) \<and>
            bb = map (rescale_bbox s scale) (pred_boxes inst)) ?seg bbs"
  proof (rule list_all2_all_nthI)
    show "length ?seg = length bbs" by (simp only: bbs lseg length_map lO)
  next
    fix k assume "k < length ?seg"
    then have k: "k < ?n" by (simp only: lseg)
    from ou [OF k] obtain inst :: instances where
      o: "outs ! k = (map (rescale_bbox (?seg ! k) (snd (snd (frames ! k)))) (pred_boxes inst),
                      scores inst)" by blast
    have "bbs ! k = map (rescale_bbox (?seg ! k) (snd (snd (frames ! k)))) (pred_boxes inst)"
      using k lO o by (simp add: bbs)
    moreover have "load_frame ops vr oh ow dh (?seg ! k)
                   = Inr (fst (frames ! k), fst (snd (frames ! k)), snd (snd (frames ! k)))"
      using fr [OF k] by simp
    ultimately show "\<exists>orig image scale (inst :: instances).
            load_frame ops vr oh ow dh (?seg ! k) = Inr (orig, image, scale) \<and>
            bbs ! k = map (rescale_bbox (?seg ! k) scale) (pred_boxes inst)" by blast
  qed
  show "if vis
         then list_all2 (\<lambda>s im. \<exists>image scale. load_frame ops vr oh ow dh s = Inr (im, image, scale))
                ?seg imgs
         else imgs = []"
  proof (cases vis)
    case False
    then show ?thesis by (simp add: imgs)
  next
    case True
    have "list_all2 (\<lambda>s im. \<exists>image scale. load_frame ops vr oh ow dh s = Inr (im, image, scale))
                ?seg imgs"
    proof (rule list_all2_all_nthI)
      show "length ?seg = length imgs" using True by (simp only: imgs lseg if_True length_map lF)
    next
      fix k assume "k < length ?seg"
      then have k: "k < ?n" by (simp only: lseg)
      have "imgs ! k = fst (frames ! k)" using True k lF by (simp add: imgs split_beta)
      moreover have "load_frame ops vr oh ow dh (?seg ! k)
                   = Inr (fst (frames ! k), fst (snd (frames ! k)), snd (snd (frames ! k)))"
        using fr [OF k] by simp
      ultimately show "\<exists>image scale. load_frame ops vr oh ow dh (?seg ! k) = Inr (imgs ! k, image, scale)"
        by (simp only:) blast
    qed
    with True show ?thesis by simp
  qed
qed

lemma load_frame_Inr:
  assumes "load_frame ops vr oh ow dh s = Inr (orig, img, scale)"
  shows "vr s = Inr orig"
    and "\<exists>image0. (if img_shape ops orig \<noteq> (oh, ow)
                      then cv2_resize_to ops orig (ow, oh) else Inr orig) = Inr image0 \<and>
                  fst (img_shape ops image0) \<noteq> 0 \<and>
                  scale = of_int dh / of_int (fst (img_shape ops image0)) \<and>
                  cv2_resize_by ops image0 scale = Inr img"
proof -
  from assms obtain o1 where v: "vr s = Inr o1"
    and r1: "py_bind (if img_shape ops o1 \<noteq> (oh, ow)
              then cv2_resize_to ops o1 (ow, oh)
              else Inr o1) (\<lambda>image.
     if fst (img_shape ops image) = 0 then Inl ZeroDivisionError
     else (let image_scale = of_int dh / of_int (fst (img_shape ops image))
           in py_bind (cv2_resize_by ops image image_scale) (\<lambda>image.
              Inr (o1, image, image_scale)))) = Inr (orig, img, scale)"
    unfolding load_frame_def by (rule py_bindE)
  from r1 obtain image0 where
    f: "(if img_shape ops o1 \<noteq> (oh, ow) then cv2_resize_to ops o1 (ow, oh) else Inr o1)
        = Inr image0"
    and r2: "(if fst (img_shape ops image0) = 0 then Inl ZeroDivisionError
     else (let image_scale = of_int dh / of_int (fst (img_shape ops image0))
           in py_bind (cv2_resize_by ops image0 image_scale) (\<lambda>image.
              Inr (o1, image, image_scale)))) = Inr (orig, img, scale)"
    by (rule py_bindE)
  from r2 have h: "fst (img_shape ops image0) \<noteq> 0" by (auto split: if_splits)
  with r2 have "py_bind (cv2_resize_by ops image0 (of_int dh / of_int (fst (img_shape ops image0))))
                  (\<lambda>image. Inr (o1, image, of_int dh / of_int (fst (img_shape ops image0))))
                = Inr (orig, img, scale)"
    by (simp add: Let_def)
  then have e: "o1 = orig" "scale = of_int dh / of_int (fst (img_shape ops image0))"
    "cv2_resize_by ops image0 scale = Inr img"
    by (auto simp: py_bind_Inr_iff)
  show "vr s = Inr orig" using v e(1) by simp
  show "\<exists>image0. (if img_shape ops orig \<noteq> (oh, ow)
                      then cv2_resize_to ops orig (ow, oh) else Inr orig) = Inr image0 \<and>
                  fst (img_shape ops image0) \<noteq> 0 \<and>
                  scale = of_int dh / of_int (fst (img_shape ops image0)) \<and>
                  cv2_resize_by ops image0 scale = Inr img"
    using f h e by blast
qed

lemma batch_loop_Inr:
  assumes "batch_loop body starts (B, S, I) = Inr (B', S', I')"
    and "\<And>i b s im. i \<in> set starts \<Longrightarrow> body i = Inr (b, s, im) \<Longrightarrow>
           list_all2 P (seg i) b \<and> length s = length (seg i) \<and> list_all2 Q (segI i) im"
    and "list_all2 P xs B" and "length S = length xs" and "list_all2 Q ys I"
  shows "list_all2 P (xs @ concat (map seg starts)) B' \<and>
         length S' = length (xs @ concat (map seg starts)) \<and>
         list_all2 Q (ys @ concat (map segI starts)) I'"
  using assms
proof (induction starts arbitrary: B S I xs ys)
  case Nil
  then show ?case by simp
next
  case (Cons i starts)
  from Cons.prems(1) obtain b s im where
    bi: "body i = Inr (b, s, im)"
    and rest: "batch_loop body starts (B @ b, S @ s, I @ im) = Inr (B', S', I')"
    by (auto simp: py_bind_Inr_iff)
  from Cons.prems(2) [OF _ bi]
  have st: "list_all2 P (seg i) b" "length s = length (seg i)" "list_all2 Q (segI i) im"
    by simp_all
  have "list_all2 P ((xs @ seg i) @ concat (map seg starts)) B' \<and>
        length S' = length ((xs @ seg i) @ concat (map seg starts)) \<and>
        list_all2 Q ((ys @ segI i) @ concat (map segI starts)) I'"
  proof (rule Cons.IH [OF rest])
    show "list_all2 P (xs @ seg i) (B @ b)"
      using Cons.prems(3) st(1) by (rule list_all2_appendI)
    show "length (S @ s) = length (xs @ seg i)" using Cons.prems(4) st(2) by simp
    show "list_all2 Q (ys @ segI i) (I @ im)"
      using Cons.prems(5) st(3) by (rule list_all2_appendI)
    show "\<And>j b s im. j \<in> set starts \<Longrightarrow> body j = Inr (b, s, im) \<Longrightarrow>
           list_all2 P (seg j) b \<and> length s = length (seg j) \<and> list_all2 Q (segI j) im"
      using Cons.prems(2) by simp
  qed
  then show ?case by simp
qed

lemma take_min_length: "take (min a (length xs)) xs = take a xs"
  by (simp add: min_def)

lemma concat_segments:
  "concat (map (\<lambda>k. take (min (k * b + b) (length xs) - k * b) (drop (k * b) xs)) [0..<m])
   = take (m * b) xs"
proof (induction m)
  case 0
  show ?case by simp
next
  case (Suc m)
  have "take (m * b) xs @ take (min (m * b + b) (length xs) - m * b) (drop (m * b) xs)
        = take (Suc m * b) xs"
  proof (cases "m * b \<le> length xs")
    case True
    have "take (m * b) xs @ take (min (m * b + b) (length xs) - m * b) (drop (m * b) xs)
          = take (m * b + (min (m * b + b) (length xs) - m * b)) xs"
      by (simp only: take_add)
    also have "m * b + (min (m * b + b) (length xs) - m * b) = min (m * b + b) (length xs)"
      using True by simp
    also have "take (min (m * b + b) (length xs)) xs = take (m * b + b) xs"
      by (rule take_min_length)
    finally show ?thesis by (simp add: add.commute)
  next
    case False
    then show ?thesis by simp
  qed
  with Suc.IH show ?case by simp
qed

lemma batches_cover:
  assumes "0 < bs"
  shows "int n \<le> int (nat ((int n + bs - 1) div bs)) * bs"
proof -
  let ?x = "int n + bs - 1"
  have x0: "0 \<le> ?x" using assms by simp
  have "?x = ?x div bs * bs + ?x mod bs" by simp
  moreover have "?x mod bs \<le> bs - 1" using assms pos_mod_bound [of bs ?x] by simp
  ultimately have "int n \<le> ?x div bs * bs" by linarith
  moreover have "0 \<le> ?x div bs" using x0 assms by (simp add: pos_imp_zdiv_nonneg_iff)
  ultimately show ?thesis by simp
qed

lemma py_range3_batches:
  assumes "0 < bs"
  shows "py_range3 0 (int (length sw)) bs = Inr starts \<longleftrightarrow>
         starts = map (\<lambda>k. int k * bs) [0..<nat ((int (length sw) + bs - 1) div bs)]"
  using assms by (auto simp: py_range3_def)

lemma py_range3_negative:
  assumes "bs < 0"
  shows "py_range3 0 (int (length sw)) bs = Inr []"
proof -
  have "(0 - int (length sw) - bs - 1) div (- bs) \<le> (- bs - 1) div (- bs)"
    using assms by (intro zdiv_mono1) simp_all
  also have "(- bs - 1) div (- bs) = 0" using assms by (simp add: div_pos_pos_trivial)
  finally show ?thesis using assms by (simp add: py_range3_def)
qed

lemma seg_len_conv: "nat (min (int p + int b) (int n) - int p) = min (p + b) n - p"
  by (cases "p + b \<le> n") (simp_all add: min_def nat_diff_distrib)

lemma segments_cover:
  assumes "0 < bs"
  shows "concat (map (\<lambda>i. take (nat (min (i + bs) (int (length sw)) - i)) (drop (nat i) sw))
           (map (\<lambda>k. int k * bs) [0..<nat ((int (length sw) + bs - 1) div bs)])) = sw"
proof -
  let ?m = "nat ((int (length sw) + bs - 1) div bs)"
  let ?b = "nat bs"
  have seg: "take (nat (min (int k * bs + bs) (int (length sw)) - int k * bs))
               (drop (nat (int k * bs)) sw)
             = take (min (k * ?b + ?b) (length sw) - k * ?b) (drop (k * ?b) sw)" for k
  proof -
    have e: "int k * bs = int (k * ?b)" and b: "bs = int ?b" using assms by simp_all
    have "take (nat (min (int k * bs + bs) (int (length sw)) - int k * bs))
               (drop (nat (int k * bs)) sw)
          = take (nat (min (int (k * ?b) + int ?b) (int (length sw)) - int (k * ?b)))
               (drop (nat (int (k * ?b))) sw)"
      using e b by presburger
    also have "\<dots> = take (min (k * ?b + ?b) (length sw) - k * ?b) (drop (k * ?b) sw)"
      by (simp only: seg_len_conv nat_int)
    finally show ?thesis .
  qed
  have "concat (map (\<lambda>i. take (nat (min (i + bs) (int (length sw)) - i)) (drop (nat i) sw))
           (map (\<lambda>k. int k * bs) [0..<?m]))
        = concat (map (\<lambda>k. take (min (k * ?b + ?b) (length sw) - k * ?b) (drop (k * ?b) sw))
             [0..<?m])"
    by (simp add: o_def seg)
  also have "\<dots> = take (?m * ?b) sw" by (rule concat_segments)
  also have "\<dots> = sw"
  proof -
    have "int (length sw) \<le> int ?m * bs" using assms by (rule batches_cover)
    also have "int ?m * bs = int (?m * ?b)" using assms by simp
    finally have "length sw \<le> ?m * ?b" by (simp only: of_nat_le_iff)
    then show ?thesis by simp
  qed
  finally show ?thesis .
qed

lemma perform_retrieval_parts:
  assumes "perform_retrieval ops vr vc q net bs dh rf sf vis = Inr (B, S, I, reference)"
  obtains sw ow oh starts where
    "prepare_reference ops vr vc (REFERENCE_CONTEXT_PAD net) (REFERENCE_SIZE net)
       = Inr (reference, ow, oh)"
    and "live_search_window q rf sf = Inr sw"
    and "py_range3 0 (int (length sw)) bs = Inr starts"
    and "batch_loop (\<lambda>i. process_batch ops vr net reference oh ow dh vis sw i
                          (min (i + bs) (int (length sw)))) starts ([], [], [])
         = Inr (B, S, I)"
proof -
  from assms obtain p where
    p: "prepare_reference ops vr vc (REFERENCE_CONTEXT_PAD net) (REFERENCE_SIZE net) = Inr p"
    and r1: "(case p of (reference, owidth, oheight) \<Rightarrow>
     py_bind (live_search_window q rf sf) (\<lambda>search_window.
     py_bind (py_range3 0 (int (length search_window)) bs) (\<lambda>starts.
     py_bind (batch_loop
                (\<lambda>i. process_batch ops vr net reference oheight owidth
                        dh vis search_window i
                        (min (i + bs) (int (length search_window))))
                starts ([], [], [])) (\<lambda>(ret_bboxes, ret_scores, ret_imgs).
     Inr (ret_bboxes, ret_scores, ret_imgs, reference))))) = Inr (B, S, I, reference)"
    unfolding perform_retrieval_def by (rule py_bindE)
  obtain ref' ow oh where pe: "p = (ref', ow, oh)" by (cases p)
  from r1 [unfolded pe prod.case] obtain sw where
    w: "live_search_window q rf sf = Inr sw"
    and r2: "py_bind (py_range3 0 (int (length sw)) bs) (\<lambda>starts.
     py_bind (batch_loop
                (\<lambda>i. process_batch ops vr net ref' oh ow dh vis sw i
                        (min (i + bs) (int (length sw))))
                starts ([], [], [])) (\<lambda>(ret_bboxes, ret_scores, ret_imgs).
     Inr (ret_bboxes, ret_scores, ret_imgs, ref'))) = Inr (B, S, I, reference)"
    by (rule py_bindE)
  from r2 obtain starts where
    st: "py_range3 0 (int (length sw)) bs = Inr starts"
    and r3: "py_bind (batch_loop
                (\<lambda>i. process_batch ops vr net ref' oh ow dh vis sw i
                        (min (i + bs) (int (length sw))))
                starts ([], [], [])) (\<lambda>(ret_bboxes, ret_scores, ret_imgs).
     Inr (ret_bboxes, ret_scores, ret_imgs, ref')) = Inr (B, S, I, reference)"
    by (rule py_bindE)
  from r3 obtain acc where
    bl: "batch_loop (\<lambda>i. process_batch ops vr net ref' oh ow dh vis sw i
                        (min (i + bs) (int (length sw)))) starts ([], [], []) = Inr acc"
    and r4: "(case acc of (ret_bboxes, ret_scores, ret_imgs) \<Rightarrow>
               (Inr (ret_bboxes, ret_scores, ret_imgs, ref') :: py_error + _))
             = Inr (B, S, I, reference)"
    by (rule py_bindE)
  from r4 have "acc = (B, S, I)" and "ref' = reference" by (auto split: prod.splits)
  with p pe w st bl show ?thesis by (intro that) simp_all
qed

lemma perform_retrieval_Inr:
  assumes pr: "perform_retrieval ops vr vc q net bs dh rf sf vis = Inr (B, S, I, reference)"
  shows "\<exists>sw ow oh.
           prepare_reference ops vr vc (REFERENCE_CONTEXT_PAD net) (REFERENCE_SIZE net)
             = Inr (reference, ow, oh) \<and>
           live_search_window q rf sf = Inr sw \<and> bs \<noteq> 0 \<and>
           list_all2 (\<lambda>s bb. \<exists>orig img scale (inst :: instances).
                load_frame ops vr oh ow dh s = Inr (orig, img, scale) \<and>
                bb = map (rescale_bbox s scale) (pred_boxes inst))
             (if 0 < bs then sw else []) B \<and>
           length S = length (if 0 < bs then sw else []) \<and>
           list_all2 (\<lambda>s im. \<exists>img scale. load_frame ops vr oh ow dh s = Inr (im, img, scale))
             (if vis \<and> 0 < bs then sw else []) I"
proof -
  from pr obtain sw ow oh starts where
    p: "prepare_reference ops vr vc (REFERENCE_CONTEXT_PAD net) (REFERENCE_SIZE net)
          = Inr (reference, ow, oh)"
    and w: "live_search_window q rf sf = Inr sw"
    and st: "py_range3 0 (int (length sw)) bs = Inr starts"
    and bl: "batch_loop (\<lambda>i. process_batch ops vr net reference oh ow dh vis sw i
                          (min (i + bs) (int (length sw)))) starts ([], [], [])
             = Inr (B, S, I)"
    by (rule perform_retrieval_parts)
  let ?P = "\<lambda>s bb. \<exists>orig img scale (inst :: instances).
                load_frame ops vr oh ow dh s = Inr (orig, img, scale) \<and>
                bb = map (rescale_bbox s scale) (pred_boxes inst)"
  let ?Q = "\<lambda>s im. \<exists>img scale. load_frame ops vr oh ow dh s = Inr (im, img, scale)"
  let ?seg = "\<lambda>i. take (nat (min (i + bs) (int (length sw)) - i)) (drop (nat i) sw)"
  let ?segI = "\<lambda>i. if vis then ?seg i else []"
  have bs0: "bs \<noteq> 0" using st by (auto simp: py_range3_def)
  have inv: "list_all2 ?P ([] @ concat (map ?seg starts)) B \<and>
             length S = length ([] @ concat (map ?seg starts)) \<and>
             list_all2 ?Q ([] @ concat (map ?segI starts)) I"
  proof (rule batch_loop_Inr [OF bl])
    fix i b s im
    assume i: "i \<in> set starts"
      and pb: "process_batch ops vr net reference oh ow dh vis sw i
                 (min (i + bs) (int (length sw))) = Inr (b, s, im)"
    have i0: "0 \<le> i"
    proof (cases "0 < bs")
      case True
      with st i show ?thesis by (auto simp: py_range3_batches)
    next
      case False
      with bs0 have "bs < 0" by simp
      with st i show ?thesis by (simp add: py_range3_negative)
    qed
    have ie: "min (i + bs) (int (length sw)) \<le> int (length sw)" by simp
    note r = process_batch_Inr [OF pb i0 ie]
    from r(3) have "list_all2 ?Q (?segI i) im" by (cases vis) simp_all
    with r(1,2) show "list_all2 ?P (?seg i) b \<and> length s = length (?seg i) \<and>
                      list_all2 ?Q (?segI i) im" by blast
  qed simp_all
  have cover: "concat (map ?seg starts) = (if 0 < bs then sw else [])"
  proof (cases "0 < bs")
    case True
    with st have "starts = map (\<lambda>k. int k * bs) [0..<nat ((int (length sw) + bs - 1) div bs)]"
      by (simp add: py_range3_batches)
    then show ?thesis using segments_cover [OF True, of sw] True by simp
  next
    case False
    with bs0 have "bs < 0" by simp
    with st have "starts = []" by (simp add: py_range3_negative)
    then show ?thesis using False by simp
  qed
  have coverI: "concat (map ?segI starts) = (if vis \<and> 0 < bs then sw else [])"
  proof (cases vis)
    case True
    then show ?thesis using cover by simp
  next
    case False
    then show ?thesis by simp
  qed
  from inv have "list_all2 ?P (if 0 < bs then sw else []) B \<and>
             length S = length (if 0 < bs then sw else []) \<and>
             list_all2 ?Q (if vis \<and> 0 < bs then sw else []) I"
    by (simp only: append_Nil cover coverI)
  with p w bs0 show ?thesis by blast
qed

subsection \<open>The claims about the search window\<close>




text \<open>
  Claim C2: for \<open>query_frame > 0\<close>, the step whose factor is 0 leaves the window it
  receives unchanged. With \<open>recency_factor = 0\<close> the selection is the subsampling of
  the unfiltered base window; with \<open>subsampling_factor = 0\<close> it is the recency-filtered
  window as it is; with both factors 0 it is the base window.
\<close>

theorem zero_factor_keeps_window:
  assumes "0 < q"
  shows "recency_step (py_range 0 q) 0 = py_range 0 q \<and>
         subsampling_step (recency_step (py_range 0 q) rf) 0
           = Inr (recency_step (py_range 0 q) rf) \<and>
         live_search_window q 0 sf = subsampling_step (py_range 0 q) sf \<and>
         live_search_window q rf 0 = Inr (recency_step (py_range 0 q) rf) \<and>
         live_search_window q 0 0 = Inr (py_range 0 q)"
proof -
  have r: "recency_step xs 0 = xs" for xs :: "int list"
    by (simp add: recency_step_def py_round_def py_slice_from_def Let_def)
  have s: "subsampling_step xs 0 = Inr xs" for xs :: "int list"
    by (simp add: subsampling_step_def idxs_to_sample_def np_linspace_def py_int_def
        astype_int_def Let_def)
  show ?thesis by (simp add: live_search_window_steps r s)
qed

text \<open>C2 at \<open>query_frame = 4\<close>.\<close>

theorem zero_factor_keeps_window_witness:
  "(0::int) < 4 \<and> live_search_window 4 0 0 = Inr [0, 1, 2, 3] \<and>
   live_search_window 4 (1 / 2) 0 = Inr [2, 3] \<and>
   live_search_window 4 0 (1 / 2) = Inr [0, 3]"
proof -
  have a: "py_range 0 4 = [0, 1, 2, 3]" by code_simp
  have b: "recency_step [0, 1, 2, 3 :: int] (1 / 2) = [2, 3]" by code_simp
  have c: "subsampling_step [0, 1, 2, 3 :: int] (1 / 2) = Inr [0, 3]" by code_simp
  show ?thesis using zero_factor_keeps_window [of 4 "1 / 2" "1 / 2"] unfolding a b c by simp
qed

text \<open>
  Claim C3: for \<open>query_frame > 0\<close> and both factors 1.0, the search window is the list
  0, 1, ..., \<open>query_frame - 1\<close> in increasing order.
\<close>

theorem unit_factors_select_all_frames:
  assumes "0 < q"
  shows "live_search_window q 1 1 = Inr (map int [0..<nat q])"
proof -
  have c: "py_int (1 * of_int (kept q 1)) = q"
    using assms by (simp add: kept_one py_int_def)
  have c0: "0 \<le> py_int (1 * of_int (kept q 1))" using assms c by simp
  have "live_search_window q 1 1 = Inr (map (\<lambda>k. py_int (interp_point q q k)) [0..<nat q])"
    using window_shape [OF assms _ _ c0] assms
    by (simp add: live_search_window_steps kept_one py_int_def)
  also have "map (\<lambda>k. py_int (interp_point q q k)) [0..<nat q] = map int [0..<nat q]"
    by (rule map_cong [OF refl]) (simp add: interp_point_full py_int_def)
  finally show ?thesis .
qed

text \<open>C3 at \<open>query_frame = 5\<close>.\<close>

theorem unit_factors_select_all_frames_witness:
  "(0::int) < 5 \<and> live_search_window 5 1 1 = Inr [0, 1, 2, 3, 4]"
proof -
  have a: "map int [0..<nat 5] = [0, 1, 2, 3, 4]" by code_simp
  show ?thesis using unit_factors_select_all_frames [of 5] unfolding a by simp
qed




text \<open>
  Claim C5: for every \<open>query_frame\<close>, \<open>recency_factor\<close> and \<open>subsampling_factor\<close>, the
  live and the cached retriever compute the same search window (or raise the same
  exception).
\<close>

theorem live_cached_same_search_window:
  "live_search_window query_frame recency_factor subsampling_factor =
   cached_search_window query_frame recency_factor subsampling_factor"
  by (simp add: live_search_window_def cached_search_window_def)

text \<open>C5 at \<open>query_frame = 10\<close> and both factors 0.5.\<close>

theorem live_cached_same_search_window_witness:
  "live_search_window 10 (1 / 2) (1 / 2) = cached_search_window 10 (1 / 2) (1 / 2) \<and>
   cached_search_window 10 (1 / 2) (1 / 2) = Inr [5, 9]"
proof -
  have a: "cached_search_window 10 (1 / 2) (1 / 2) = Inr [5, 9]" by code_simp
  show ?thesis using live_cached_same_search_window [of 10 "1 / 2" "1 / 2"] a by simp
qed


text \<open>
  Claim C6: for \<open>query_frame \<ge> 0\<close> and both factors in [0, 1], the search window is
  computed without an exception, is strictly increasing, holds frame indices of
  \<open>[0, query_frame)\<close> only, has at most \<open>query_frame\<close> elements, and is a subsequence of
  the base window (the order of the base window is preserved).
\<close>

theorem search_window_increasing_in_range:
  assumes "0 \<le> q" "0 \<le> rf" "rf \<le> 1" "0 \<le> sf" "sf \<le> 1"
  shows "\<exists>w. live_search_window q rf sf = Inr w \<and> sorted_wrt (<) w \<and>
             set w \<subseteq> {0..<q} \<and> int (length w) \<le> q \<and> subseq w (py_range 0 q)"
proof (cases "q = 0")
  case True
  then show ?thesis by (simp add: live_search_window_zero)
next
  case False
  with assms have qp: "0 < q" by simp
  let ?W = "kept q rf"
  let ?c = "py_int (sf * of_int ?W)"
  note r = recency_py_range [OF assms(1,2,3)]
  have W: "1 \<le> ?W" "?W \<le> q" using r(3) r(4) qp by auto
  have x0: "0 \<le> sf * of_int ?W" using assms W by simp
  have x1: "sf * of_int ?W \<le> of_int ?W" using assms W by (simp add: mult_left_le_one_le)
  have c: "?c = \<lfloor>sf * of_int ?W\<rfloor>" using x0 by (rule py_int_nonneg)
  have c0: "0 \<le> ?c" using x0 by (simp add: c)
  have cW: "?c \<le> ?W" using x1 by (simp add: c floor_le_iff)
  define w where "w = (if ?c = 0 then py_range (q - ?W) q
       else map (\<lambda>k. q - ?W + py_int (interp_point ?W ?c k)) [0..<nat ?c])"
  have res: "live_search_window q rf sf = Inr w"
    unfolding w_def live_search_window_steps by (rule window_shape [OF qp assms(2,3) c0])
  have props: "sorted_wrt (<) w \<and> set w \<subseteq> {q - ?W..<q} \<and> int (length w) \<le> ?W"
  proof (cases "?c = 0")
    case True
    then show ?thesis using W
      by (simp add: w_def sorted_wrt_py_range set_py_range length_py_range)
  next
    case False
    then have w: "w = map (\<lambda>k. q - ?W + py_int (interp_point ?W ?c k)) [0..<nat ?c]"
      by (simp add: w_def)
    have len: "int (length w) \<le> ?W" using cW c0 by (simp add: w)
    have rng: "set w \<subseteq> {q - ?W..<q}"
    proof
      fix x assume "x \<in> set w"
      then obtain k where k: "k < nat ?c" and x: "x = q - ?W + py_int (interp_point ?W ?c k)"
        by (auto simp: w)
      from py_int_interp_point(2,3) [OF W(1) k] show "x \<in> {q - ?W..<q}" by (simp add: x)
    qed
    have srt: "sorted_wrt (<) w"
      unfolding sorted_wrt_iff_nth_less
    proof (intro allI impI)
      fix i j assume ij: "i < j" and j: "j < length w"
      then have jc: "j < nat ?c" and ic: "i < nat ?c" by (simp_all add: w)
      then have c2: "2 \<le> ?c" using ij by linarith
      have "\<lfloor>interp_point ?W ?c i\<rfloor> < \<lfloor>interp_point ?W ?c j\<rfloor>"
        by (rule floor_interp_point_strict [OF c2 cW ij])
      then have "py_int (interp_point ?W ?c i) < py_int (interp_point ?W ?c j)"
        by (simp only: py_int_interp_point(1) [OF W(1) ic] py_int_interp_point(1) [OF W(1) jc])
      then show "w ! i < w ! j" using ic jc by (simp add: w)
    qed
    from srt rng len show ?thesis by blast
  qed
  have sub0: "set w \<subseteq> {0..<q}" using props W by auto
  have "subseq w (py_range 0 q)"
    using props sub0 by (intro strict_sorted_subseq_py_range) auto
  with res props sub0 W show ?thesis by auto
qed

text \<open>C6 at \<open>query_frame = 10\<close> and both factors 0.5: the window is 5, 9.\<close>

theorem search_window_increasing_in_range_witness:
  "(0::int) \<le> 10 \<and> (0::real) \<le> 1 / 2 \<and> (1 / 2 :: real) \<le> 1 \<and>
   live_search_window 10 (1 / 2) (1 / 2) = Inr [5, 9] \<and>
   (\<exists>w. live_search_window 10 (1 / 2) (1 / 2) = Inr w \<and> sorted_wrt (<) w \<and>
        set w \<subseteq> {0..<10} \<and> int (length w) \<le> 10 \<and> subseq w (py_range 0 10))"
proof -
  have e: "live_search_window 10 (1 / 2) (1 / 2) = Inr [5, 9]"
    by code_simp
  have h: "\<exists>w. live_search_window 10 (1 / 2) (1 / 2) = Inr w \<and> sorted_wrt (<) w \<and>
        set w \<subseteq> {0..<10} \<and> int (length w) \<le> 10 \<and> subseq w (py_range 0 10)"
    by (rule search_window_increasing_in_range) simp_all
  have a: "(0::int) \<le> 10" and b: "(0::real) \<le> 1 / 2" and c: "(1 / 2 :: real) \<le> 1"
    by simp_all
  show ?thesis
    by (rule conjI [OF a conjI [OF b conjI [OF c conjI [OF e h]]]])
qed



subsection \<open>The claims about the retrievers\<close>






text \<open>
  Claim C8: a returning call with \<open>visualize=False\<close> gives an empty raw-frame list in both
  retrievers; with \<open>visualize=True\<close> it gives one raw frame per searched frame index, in
  the order of the search window. The cached retriever searches the whole window. The live
  retriever searches it in batches: the whole window when \<open>batch_size\<close> is positive, and no
  frame at all when it is negative (the loop over \<open>range(0, len(search_window), batch_size)\<close>
  is empty; \<open>batch_size = 0\<close> raises); \<open>ret_bboxes\<close> has one entry per searched frame.
\<close>

theorem raw_frames_per_searched_index:
  "(perform_retrieval ops video_reader visual_crop query_frame net batch_size downscale_height
      recency_factor subsampling_factor visualize = Inr (ret_bboxes, ret_scores, ret_imgs, reference)
    \<longrightarrow>
    (\<exists>search_window.
       live_search_window query_frame recency_factor subsampling_factor = Inr search_window \<and>
       length ret_bboxes = length (if 0 < batch_size then search_window else []) \<and>
       (if visualize
        then list_all2 (\<lambda>s img. video_reader s = Inr img)
               (if 0 < batch_size then search_window else []) ret_imgs
        else ret_imgs = []))) \<and>
   (perform_cached_retrieval ops video_reader visual_crop query_frame net cached_bboxes
      cached_scores recency_factor subsampling_factor visualize
      = Inr (ret_bboxes', ret_scores', ret_imgs', reference')
    \<longrightarrow>
    (\<exists>search_window.
       cached_search_window query_frame recency_factor subsampling_factor = Inr search_window \<and>
       length ret_bboxes' = length search_window \<and>
       (if visualize then list_all2 (\<lambda>s img. video_reader s = Inr img) search_window ret_imgs'
        else ret_imgs' = [])))"
proof (intro conjI impI)
  assume pr: "perform_retrieval ops video_reader visual_crop query_frame net batch_size
      downscale_height recency_factor subsampling_factor visualize
      = Inr (ret_bboxes, ret_scores, ret_imgs, reference)"
  from perform_retrieval_Inr [OF pr] obtain sw ow oh where
    w: "live_search_window query_frame recency_factor subsampling_factor = Inr sw"
    and lb: "list_all2 (\<lambda>s bb. \<exists>orig img scale (inst :: instances).
                load_frame ops video_reader oh ow downscale_height s = Inr (orig, img, scale) \<and>
                bb = map (rescale_bbox s scale) (pred_boxes inst))
             (if 0 < batch_size then sw else []) ret_bboxes"
    and li: "list_all2 (\<lambda>s im. \<exists>img scale.
                load_frame ops video_reader oh ow downscale_height s = Inr (im, img, scale))
             (if visualize \<and> 0 < batch_size then sw else []) ret_imgs"
    by blast
  have len: "length ret_bboxes = length (if 0 < batch_size then sw else [])"
    using lb by (rule list_all2_lengthD [symmetric])
  have fr: "list_all2 (\<lambda>s img. video_reader s = Inr img)
             (if visualize \<and> 0 < batch_size then sw else []) ret_imgs"
    using li by (rule list_all2_mono) (auto dest: load_frame_Inr(1))
  have "if visualize
        then list_all2 (\<lambda>s img. video_reader s = Inr img)
               (if 0 < batch_size then sw else []) ret_imgs
        else ret_imgs = []"
    using fr by (cases visualize) simp_all
  with w len show "\<exists>search_window.
       live_search_window query_frame recency_factor subsampling_factor = Inr search_window \<and>
       length ret_bboxes = length (if 0 < batch_size then search_window else []) \<and>
       (if visualize
        then list_all2 (\<lambda>s img. video_reader s = Inr img)
               (if 0 < batch_size then search_window else []) ret_imgs
        else ret_imgs = [])" by blast
next
  assume pc: "perform_cached_retrieval ops video_reader visual_crop query_frame net cached_bboxes
      cached_scores recency_factor subsampling_factor visualize
      = Inr (ret_bboxes', ret_scores', ret_imgs', reference')"
  from perform_cached_retrieval_Inr [OF pc] obtain sw where
    w: "cached_search_window query_frame recency_factor subsampling_factor = Inr sw"
    and lb: "list_all2 (\<lambda>s b. py_getitem cached_bboxes s = Inr b) sw ret_bboxes'"
    and li: "if visualize then list_all2 (\<lambda>s img. video_reader s = Inr img) sw ret_imgs'
             else ret_imgs' = []"
    by blast
  have "length ret_bboxes' = length sw" using lb by (rule list_all2_lengthD [symmetric])
  with w li show "\<exists>search_window.
       cached_search_window query_frame recency_factor subsampling_factor = Inr search_window \<and>
       length ret_bboxes' = length search_window \<and>
       (if visualize then list_all2 (\<lambda>s img. video_reader s = Inr img) search_window ret_imgs'
        else ret_imgs' = [])" by blast
qed

text \<open>
  C8 on the concrete collaborators, three frames: with \<open>visualize=True\<close> both retrievers
  return the frames 0, 1, 2; with \<open>visualize=False\<close> both return no frame.
\<close>

theorem raw_frames_per_searched_index_witness:
  "perform_retrieval demo_ops Inr demo_crop 3 demo_net 2 4 1 1 True
     = Inr ([[BBox 0 10 20 30 40], [BBox 1 10 20 30 40], [BBox 2 10 20 30 40]],
            [[1 / 2], [1 / 2], [1 / 2]], [0, 1, 2], (1, 2, 4, 6)) \<and>
   perform_retrieval demo_ops Inr demo_crop 3 demo_net 2 4 1 1 False
     = Inr ([[BBox 0 10 20 30 40], [BBox 1 10 20 30 40], [BBox 2 10 20 30 40]],
            [[1 / 2], [1 / 2], [1 / 2]], [], (1, 2, 4, 6)) \<and>
   perform_cached_retrieval demo_ops Inr demo_crop 3 demo_net [7, 8, 9 :: int] [4, 5, 6 :: int]
       1 1 True = Inr ([7, 8, 9], [4, 5, 6], [0, 1, 2], (1, 2, 4, 6)) \<and>
   perform_cached_retrieval demo_ops Inr demo_crop 3 demo_net [7, 8, 9 :: int] [4, 5, 6 :: int]
       1 1 False = Inr ([7, 8, 9], [4, 5, 6], [], (1, 2, 4, 6)) \<and>
   (\<exists>search_window.
       live_search_window 3 1 1 = Inr search_window \<and>
       length [[BBox 0 10 20 30 40], [BBox 1 10 20 30 40], [BBox 2 10 20 30 40]] = length (if (0::int) < 2 then search_window else []) \<and>
       (if True
        then list_all2 (\<lambda>s img. (Inr s :: py_error + int) = Inr img)
               (if (0::int) < 2 then search_window else []) [0, 1, 2]
        else [0, 1, 2 :: int] = [])) \<and>
   (\<exists>search_window.
       cached_search_window 3 1 1 = Inr search_window \<and>
       length [7, 8, 9 :: int] = length search_window \<and>
       (if True then list_all2 (\<lambda>s img. (Inr s :: py_error + int) = Inr img) search_window [0, 1, 2]
        else [0, 1, 2 :: int] = []))"
proof -
  have e1: "perform_retrieval demo_ops Inr demo_crop 3 demo_net 2 4 1 1 True
     = Inr ([[BBox 0 10 20 30 40], [BBox 1 10 20 30 40], [BBox 2 10 20 30 40]],
            [[1 / 2], [1 / 2], [1 / 2]], [0, 1, 2], (1, 2, 4, 6))"
    by code_simp
  have e2: "perform_retrieval demo_ops Inr demo_crop 3 demo_net 2 4 1 1 False
     = Inr ([[BBox 0 10 20 30 40], [BBox 1 10 20 30 40], [BBox 2 10 20 30 40]],
            [[1 / 2], [1 / 2], [1 / 2]], [], (1, 2, 4, 6))"
    by code_simp
  have e3: "perform_cached_retrieval demo_ops Inr demo_crop 3 demo_net [7, 8, 9 :: int]
       [4, 5, 6 :: int] 1 1 True = Inr ([7, 8, 9], [4, 5, 6], [0, 1, 2], (1, 2, 4, 6))"
    by code_simp
  have e4: "perform_cached_retrieval demo_ops Inr demo_crop 3 demo_net [7, 8, 9 :: int]
       [4, 5, 6 :: int] 1 1 False = Inr ([7, 8, 9], [4, 5, 6], [], (1, 2, 4, 6))"
    by code_simp
  note T = raw_frames_per_searched_index
  note l = T [THEN conjunct1, rule_format, OF e1]
  note c = T [THEN conjunct2, rule_format, OF e3]
  show ?thesis by (rule conjI [OF e1 conjI [OF e2 conjI [OF e3 conjI [OF e4 conjI [OF l c]]]]])
qed

text \<open>
  Claim C9: the cached retriever does not call the model. Replacing the model's inference
  function by any other leaves the result of the call unchanged (the two configuration
  fields are the only part of \<open>net\<close> that is read), and the returned boxes and scores are
  \<open>cached_bboxes[s]\<close> and \<open>cached_scores[s]\<close> for the frame indices \<open>s\<close> of the search window,
  in order.
\<close>

theorem cached_retrieval_ignores_model:
  "perform_cached_retrieval ops video_reader visual_crop query_frame (net\<lparr>infer := f\<rparr>)
      cached_bboxes cached_scores recency_factor subsampling_factor visualize
   = perform_cached_retrieval ops video_reader visual_crop query_frame net
      cached_bboxes cached_scores recency_factor subsampling_factor visualize \<and>
   (perform_cached_retrieval ops video_reader visual_crop query_frame net
      cached_bboxes cached_scores recency_factor subsampling_factor visualize
      = Inr (ret_bboxes, ret_scores, ret_imgs, reference)
    \<longrightarrow>
    (\<exists>search_window.
       cached_search_window query_frame recency_factor subsampling_factor = Inr search_window \<and>
       list_all2 (\<lambda>s b. py_getitem cached_bboxes s = Inr b) search_window ret_bboxes \<and>
       list_all2 (\<lambda>s c. py_getitem cached_scores s = Inr c) search_window ret_scores))"
proof (intro conjI impI)
  show "perform_cached_retrieval ops video_reader visual_crop query_frame (net\<lparr>infer := f\<rparr>)
      cached_bboxes cached_scores recency_factor subsampling_factor visualize
   = perform_cached_retrieval ops video_reader visual_crop query_frame net
      cached_bboxes cached_scores recency_factor subsampling_factor visualize"
    by (rule perform_cached_retrieval_cfg) simp_all
next
  assume "perform_cached_retrieval ops video_reader visual_crop query_frame net
      cached_bboxes cached_scores recency_factor subsampling_factor visualize
      = Inr (ret_bboxes, ret_scores, ret_imgs, reference)"
  from perform_cached_retrieval_Inr [OF this]
  show "\<exists>search_window.
       cached_search_window query_frame recency_factor subsampling_factor = Inr search_window \<and>
       list_all2 (\<lambda>s b. py_getitem cached_bboxes s = Inr b) search_window ret_bboxes \<and>
       list_all2 (\<lambda>s c. py_getitem cached_scores s = Inr c) search_window ret_scores"
    by blast
qed

text \<open>
  C9 on the concrete collaborators: with a model whose inference always fails, the cached
  retriever returns what it returns with the working model, the cached entries of the
  frames 0 and 4 (five frames, \<open>subsampling_factor = 0.5\<close>).
\<close>

theorem cached_retrieval_ignores_model_witness:
  "perform_cached_retrieval demo_ops Inr demo_crop 5
      (demo_net\<lparr>infer := (\<lambda>images refs. Inl (External ''model failure''))\<rparr>)
      [10, 11, 12, 13, 14 :: int] [20, 21, 22, 23, 24 :: int] 1 (1 / 2) False
   = perform_cached_retrieval demo_ops Inr demo_crop 5 demo_net
      [10, 11, 12, 13, 14 :: int] [20, 21, 22, 23, 24 :: int] 1 (1 / 2) False \<and>
   perform_cached_retrieval demo_ops Inr demo_crop 5 demo_net
      [10, 11, 12, 13, 14 :: int] [20, 21, 22, 23, 24 :: int] 1 (1 / 2) False
   = Inr ([10, 14], [20, 24], [], (1, 2, 4, 6)) \<and>
   (\<exists>search_window.
       cached_search_window 5 1 (1 / 2) = Inr search_window \<and>
       list_all2 (\<lambda>s b. py_getitem [10, 11, 12, 13, 14 :: int] s = Inr b) search_window [10, 14] \<and>
       list_all2 (\<lambda>s c. py_getitem [20, 21, 22, 23, 24 :: int] s = Inr c) search_window [20, 24])"
proof -
  have e: "perform_cached_retrieval demo_ops Inr demo_crop 5 demo_net
      [10, 11, 12, 13, 14 :: int] [20, 21, 22, 23, 24 :: int] 1 (1 / 2) False
   = Inr ([10, 14], [20, 24], [], (1, 2, 4, 6))"
    by code_simp
  note T = cached_retrieval_ignores_model
  note a = T [THEN conjunct1]
  note b = T [THEN conjunct2, rule_format, OF e]
  show ?thesis by (rule conjI [OF a conjI [OF e b]])
qed

end
